theory Spec2Isabelle
  imports Main "HOL-Library.Word" "HOL-Library.Monad_Syntax"
begin

unbundle bit_operations_syntax

section \<open>COBS framing with an XOR checksum: the embedding of COBSParser\<close>

text \<open>
  The class \<^verbatim>\<open>COBSParser\<close> has one data member, the vector \<^verbatim>\<open>m_message\<close>, and three
  methods. Bytes (\<^verbatim>\<open>uint8_t\<close>) are 8-bit words, so \<open>+\<close> and \<open>-\<close> wrap as in C++.
  A buffer handed over as pointer and size is a list whose length is the size, so a
  payload that \<open>encodeMessage\<close> can be called with has fewer than \<open>2 ^ 32\<close> bytes.
  Pointers into a vector are indices into the list that models it. Values of type
  \<^verbatim>\<open>size_t\<close> are natural numbers (\<^verbatim>\<open>size_t\<close> is taken to be 64 bits wide, and no
  quantity computed from a \<^verbatim>\<open>uint32_t\<close> here reaches \<open>2 ^ 64\<close>); values of type
  \<^verbatim>\<open>uint32_t\<close> that are computed by an addition or a conversion are reduced modulo
  \<open>2 ^ 32\<close>.
\<close>

type_synonym u8 = "8 word"

definition ASCII_NULL :: u8 where
  "ASCII_NULL = 0x00"

definition MAX_FRAME_SIZE :: nat where
  "MAX_FRAME_SIZE = 1024"

definition MAX_BLOCK_SIZE :: u8 where
  "MAX_BLOCK_SIZE = 0xFF"

text \<open>Conversion of an unsigned quantity to \<^verbatim>\<open>uint32_t\<close>.\<close>

definition to_uint32 :: "nat \<Rightarrow> nat" where
  "to_uint32 n = n mod 2 ^ 32"

subsection \<open>calculateCRC\<close>

text \<open>
  \<^verbatim>\<open>for (uint32_t i = 0U; i < len; i++) crc ^= data[i];\<close>
  The loop is a recursion on the index \<open>i\<close>; the index never overflows, as it stays
  below \<open>len\<close>. The source reads \<open>data[i]\<close> for every \<open>i < len\<close>: a call with
  \<open>len\<close> beyond the buffer is undefined behaviour in C++ and is outside every theorem
  below (they ask for \<open>len \<le> length data\<close>).
\<close>

function calculateCRC_loop :: "u8 list \<Rightarrow> nat \<Rightarrow> nat \<Rightarrow> u8 \<Rightarrow> u8" where
  "calculateCRC_loop data len i crc =
     (if i < len then calculateCRC_loop data len (i + 1) (crc XOR data ! i) else crc)"
  by pat_completeness auto
termination
  by (relation "measure (\<lambda>(data, len, i, crc). len - i)") auto

declare calculateCRC_loop.simps [simp del]

definition calculateCRC :: "u8 list \<Rightarrow> nat \<Rightarrow> u8" where
  "calculateCRC data len = calculateCRC_loop data len 0 0"

subsection \<open>encodeMessage\<close>

text \<open>
  The local state of the encoding loop: the output vector, the two pointers into it
  (as indices) and the running block count.
\<close>

record encoder =
  enc_output :: "u8 list"
  enc_encodedMessage :: nat
  enc_overheadByte :: nat
  enc_overheadCount :: u8

text \<open>
  A store through a raw pointer into the vector. The vector does not grow on such a
  store: a store at or beyond its size is undefined behaviour, modelled as \<open>None\<close>.
\<close>

definition poke :: "u8 list \<Rightarrow> nat \<Rightarrow> u8 \<Rightarrow> u8 list option" where
  "poke buf p v = (if p < length buf then Some (buf[p := v]) else None)"

text \<open>\<^verbatim>\<open>std::vector::resize\<close>: shrinks, or grows with value-initialised (zero) bytes.\<close>

definition resize :: "u8 list \<Rightarrow> nat \<Rightarrow> u8 list" where
  "resize v n = take n v @ replicate (n - length v) 0"

text \<open>The body of the encoding loop for one byte of the message.\<close>

definition encodeBody :: "u8 \<Rightarrow> encoder \<Rightarrow> encoder option" where
  "encodeBody byte s = do {
     s1 \<leftarrow> (if byte \<noteq> ASCII_NULL then do {
              buf \<leftarrow> poke (enc_output s) (enc_encodedMessage s) byte;
              Some (s\<lparr>enc_output := buf,
                      enc_encodedMessage := enc_encodedMessage s + 1,
                      enc_overheadCount := enc_overheadCount s + 1\<rparr>)
            } else Some s);
     if byte = ASCII_NULL \<or> enc_overheadCount s1 = MAX_BLOCK_SIZE then do {
       buf \<leftarrow> poke (enc_output s1) (enc_overheadByte s1) (enc_overheadCount s1);
       Some (s1\<lparr>enc_output := buf,
                enc_overheadCount := 0x01,
                enc_overheadByte := enc_encodedMessage s1,
                enc_encodedMessage := enc_encodedMessage s1 + 1\<rparr>)
     } else Some s1
   }"

text \<open>
  \<^verbatim>\<open>for (uint32_t i = 0; i < messageSize; ++i)\<close> with
  \<^verbatim>\<open>byte = (i < inputSize) ? input[i] : crc\<close>.
\<close>

function encodeLoop :: "u8 list \<Rightarrow> u8 \<Rightarrow> nat \<Rightarrow> nat \<Rightarrow> encoder \<Rightarrow> encoder option" where
  "encodeLoop input crc messageSize i s =
     (if i < messageSize then
        (case encodeBody (if i < length input then input ! i else crc) s of
           None \<Rightarrow> None
         | Some s' \<Rightarrow> encodeLoop input crc messageSize (i + 1) s')
      else Some s)"
  by pat_completeness auto
termination
  by (relation "measure (\<lambda>(input, crc, messageSize, i, s). messageSize - i)") auto

declare encodeLoop.simps [simp del]

text \<open>
  \<open>messageSize = inputSize + 1U\<close> is computed in \<^verbatim>\<open>uint32_t\<close>, \<open>blockOverheadBytes\<close>
  and \<open>expectedLen\<close> in \<^verbatim>\<open>size_t\<close>.
\<close>

definition messageSize_of :: "nat \<Rightarrow> nat" where
  "messageSize_of inputSize = to_uint32 (inputSize + 1)"

definition expectedLen_of :: "nat \<Rightarrow> nat" where
  "expectedLen_of messageSize = messageSize + messageSize div 254 + 2"

text \<open>
  The result is \<open>None\<close> when a store leaves the vector, and otherwise the final content
  of \<^verbatim>\<open>output\<close> together with the returned \<^verbatim>\<open>uint32_t\<close>.
\<close>

definition encodeMessage :: "u8 list \<Rightarrow> (u8 list \<times> nat) option" where
  "encodeMessage input =
     (let inputSize = length input;
          crc = calculateCRC input inputSize;
          messageSize = messageSize_of inputSize;
          expectedLen = expectedLen_of messageSize;
          output = resize [] expectedLen;
          s0 = \<lparr>enc_output = output, enc_encodedMessage = 1, enc_overheadByte = 0,
                enc_overheadCount = 0x01\<rparr>
      in do {
        s \<leftarrow> encodeLoop input crc messageSize 0 s0;
        buf \<leftarrow> poke (enc_output s) (enc_overheadByte s) (enc_overheadCount s);
        buf \<leftarrow> poke buf (enc_encodedMessage s) ASCII_NULL;
        let actualLen = enc_encodedMessage s + 1;
        Some (resize buf actualLen, to_uint32 actualLen)
      })"

subsection \<open>decodeMessage\<close>

record decoder =
  dec_encodedMessage :: nat
  dec_blockSize :: u8
  dec_overheadCount :: u8
  dec_output :: "u8 list"

text \<open>How one pass through the loop body ends: at its end, or at the \<^verbatim>\<open>break\<close>.\<close>

datatype flow = Next decoder | Break decoder

definition decodeBody :: "u8 list \<Rightarrow> decoder \<Rightarrow> flow" where
  "decodeBody input s =
     (if dec_blockSize s > 0 then
        Next (s\<lparr>dec_output := dec_output s @ [input ! dec_encodedMessage s],
                dec_encodedMessage := dec_encodedMessage s + 1\<rparr>)
      else
        (let s1 = s\<lparr>dec_blockSize := input ! dec_encodedMessage s,
                    dec_encodedMessage := dec_encodedMessage s + 1\<rparr>
         in if dec_blockSize s1 = ASCII_NULL then Break s1
            else
              (let s2 = (if dec_overheadCount s1 \<noteq> MAX_BLOCK_SIZE
                         then s1\<lparr>dec_output := dec_output s1 @ [ASCII_NULL]\<rparr> else s1)
               in Next (s2\<lparr>dec_overheadCount := dec_blockSize s2\<rparr>))))"

text \<open>
  \<^verbatim>\<open>for (uint8_t blockSize = 0; encodedMessage < encodedMessageEnd; --blockSize)\<close>:
  the decrement runs after every pass that does not break.
\<close>

function decodeLoop :: "u8 list \<Rightarrow> decoder \<Rightarrow> decoder" where
  "decodeLoop input s =
     (if dec_encodedMessage s < length input then
        (case decodeBody input s of
           Break s' \<Rightarrow> s'
         | Next s' \<Rightarrow> decodeLoop input (s'\<lparr>dec_blockSize := dec_blockSize s' - 1\<rparr>))
      else s)"
  by pat_completeness auto
termination
  by (relation "measure (\<lambda>(input, s). length input - dec_encodedMessage s)")
     (auto simp: decodeBody_def Let_def split: if_splits)

declare decodeLoop.simps [simp del]

definition decodeStart :: decoder where
  "decodeStart = \<lparr>dec_encodedMessage = 0, dec_blockSize = 0,
                  dec_overheadCount = MAX_BLOCK_SIZE, dec_output = []\<rparr>"

text \<open>
  The method takes the frame and the current \<^verbatim>\<open>m_message\<close>, and returns its result
  with the \<^verbatim>\<open>m_message\<close> it leaves. The size passed to \<^verbatim>\<open>calculateCRC\<close> is
  converted from \<^verbatim>\<open>size_t\<close> to \<^verbatim>\<open>uint32_t\<close>.
\<close>

definition decodeMessage :: "u8 list \<Rightarrow> u8 list \<Rightarrow> bool \<times> u8 list" where
  "decodeMessage input m_message =
     (let output = dec_output (decodeLoop input decodeStart)
      in if output = [] then (False, m_message)
         else
           (let receivedCRC = last output;
                output = butlast output;
                calculatedCRC = calculateCRC output (to_uint32 (length output))
            in if calculatedCRC = receivedCRC then (True, output)
               else (False, m_message)))"

text \<open>The vector \<^verbatim>\<open>output\<close> as the decoding loop leaves it.\<close>

definition recovered :: "u8 list \<Rightarrow> u8 list" where
  "recovered input = dec_output (decodeLoop input decodeStart)"

section \<open>Auxiliary notions for the proofs\<close>

text \<open>
  The bytes the encoding loop scans for \<open>i\<close> from a start index up to \<open>n\<close>, and the
  logical message of a call: the bytes scanned for \<open>i\<close> from 0 up to \<open>messageSize\<close>.
\<close>

definition message_bytes :: "u8 list \<Rightarrow> u8 \<Rightarrow> nat \<Rightarrow> nat \<Rightarrow> u8 list" where
  "message_bytes input crc i n =
     map (\<lambda>j. if j < length input then input ! j else crc) [i..<n]"

definition message :: "u8 list \<Rightarrow> u8 list" where
  "message input =
     message_bytes input (calculateCRC input (length input)) 0 (messageSize_of (length input))"

text \<open>The encoding loop over a list of message bytes instead of an index range.\<close>

fun encodeList :: "u8 list \<Rightarrow> encoder \<Rightarrow> encoder option" where
  "encodeList [] s = Some s"
| "encodeList (b # bs) s =
     (case encodeBody b s of None \<Rightarrow> None | Some s' \<Rightarrow> encodeList bs s')"

text \<open>
  A functional view of the encoder, proved below to be what \<open>encodeMessage\<close> leaves in
  \<^verbatim>\<open>output\<close>: \<open>cur\<close> holds the literal bytes of the block that is still open.
\<close>

fun stuff :: "u8 list \<Rightarrow> u8 list \<Rightarrow> u8 list" where
  "stuff cur [] = of_nat (length cur + 1) # cur @ [0]"
| "stuff cur (b # bs) =
     (if b = 0 then of_nat (length cur + 1) # cur @ stuff [] bs
      else if length cur = 253 then 0xFF # cur @ b # stuff [] bs
      else stuff (cur @ [b]) bs)"

text \<open>
  The invariant of the encoding loop: the vector is the closed blocks \<open>pre\<close>, the slot of
  the open block's overhead byte, its literal bytes \<open>cur\<close>, and the bytes not yet written.
\<close>

definition enc_inv :: "encoder \<Rightarrow> u8 list \<Rightarrow> u8 list \<Rightarrow> u8 list \<Rightarrow> bool" where
  "enc_inv s pre cur junk \<longleftrightarrow>
     (\<exists>x. enc_output s = pre @ x # cur @ junk) \<and>
     enc_overheadByte s = length pre \<and>
     enc_encodedMessage s = length pre + 1 + length cur \<and>
     enc_overheadCount s = of_nat (length cur + 1) \<and>
     length cur < 254"

text \<open>A functional view of the decoding loop, on the part of the input still to be read.\<close>

fun unstuff :: "u8 list \<Rightarrow> u8 \<Rightarrow> u8 \<Rightarrow> u8 list \<Rightarrow> u8 list" where
  "unstuff [] blockSize overheadCount out = out"
| "unstuff (b # rest) blockSize overheadCount out =
     (if blockSize > 0 then unstuff rest (blockSize - 1) overheadCount (out @ [b])
      else if b = 0 then out
      else unstuff rest (b - 1) b (if overheadCount \<noteq> 0xFF then out @ [0] else out))"

text \<open>
  The lengths of the maximal runs of non-zero bytes of a byte sequence, in order; \<open>r\<close>
  is the length of the run being scanned. A sequence with \<open>k\<close> zero bytes has \<open>k + 1\<close>
  runs, some of them possibly empty.
\<close>

fun zero_free_runs :: "u8 list \<Rightarrow> nat \<Rightarrow> nat list" where
  "zero_free_runs [] r = [r]"
| "zero_free_runs (b # bs) r =
     (if b = 0 then r # zero_free_runs bs 0 else zero_free_runs bs (Suc r))"

text \<open>
  The blocks of a frame as the data model of the specification describes them: an
  overhead byte \<open>n \<ge> 1\<close> followed by \<open>n - 1\<close> literal bytes, block after block up to
  the terminating sentinel.
\<close>

fun frame_blocks :: "u8 list \<Rightarrow> u8 list list" where
  "frame_blocks [] = []"
| "frame_blocks (n # rest) =
     (if n = 0 then []
      else (n # take (unat n - 1) rest) # frame_blocks (drop (unat n - 1) rest))"

text \<open>
  Where a scan of the input block by block ends, as the specification describes it:
  from an overhead byte at \<open>pos\<close>, a zero byte there ends the scan just behind it, and
  an overhead byte \<open>n \<ge> 1\<close> has the next overhead byte \<open>n\<close> places further on; a
  position at or beyond the end of the input ends the scan at the end of the input. So
  \<open>sentinel_end input 0\<close> is the position just behind the first zero byte in overhead
  position, or the length of the input when there is none.
\<close>

function sentinel_end :: "u8 list \<Rightarrow> nat \<Rightarrow> nat" where
  "sentinel_end input pos =
     (if pos < length input then
        (if input ! pos = 0 then pos + 1
         else sentinel_end input (pos + unat (input ! pos)))
      else length input)"
  by pat_completeness auto
termination
  by (relation "measure (\<lambda>(input, pos). length input - pos)")
     (auto simp: unat_gt_0 intro: diff_less_mono2)

declare sentinel_end.simps [simp del]

section \<open>The loops and their functional views\<close>

subsection \<open>Bytes as words\<close>

lemma u8_of_nat_eq_0: "n < 256 \<Longrightarrow> (of_nat n :: u8) = 0 \<longleftrightarrow> n = 0"
  by (simp add: word_unat_eq_iff unat_of_nat)

lemma u8_of_nat_eq_255: "n < 256 \<Longrightarrow> (of_nat n :: u8) = 0xFF \<longleftrightarrow> n = 255"
  by (simp add: word_unat_eq_iff unat_of_nat)

subsection \<open>The encoding loop\<close>

lemma encodeLoop_list:
  "encodeLoop input crc n i s = encodeList (message_bytes input crc i n) s"
proof (induction input crc n i s rule: encodeLoop.induct)
  case (1 input crc n i s)
  show ?case
  proof (cases "i < n")
    case True
    then have m: "message_bytes input crc i n =
        (if i < length input then input ! i else crc) # message_bytes input crc (i + 1) n"
      by (simp add: message_bytes_def upt_conv_Cons)
    show ?thesis
      using True "1.IH" by (subst encodeLoop.simps) (simp add: m split: option.splits)
  next
    case False
    then show ?thesis
      by (subst encodeLoop.simps) (simp add: message_bytes_def)
  qed
qed

lemma message_bytes_full:
  "message_bytes input crc 0 (length input + 1) = input @ [crc]"
  by (rule nth_equalityI) (auto simp: message_bytes_def nth_append)

lemma stuff_length_ge: "length cur + 2 \<le> length (stuff cur bs)"
proof (induction bs arbitrary: cur)
  case Nil
  then show ?case by simp
next
  case (Cons b bs)
  from Cons.IH [of "[]"] Cons.IH [of "cur @ [b]"] show ?case by simp
qed

lemma stuff_length_le:
  "length cur < 254 \<Longrightarrow>
   length (stuff cur bs) \<le> 2 + length cur + length bs + (length cur + length bs) div 254"
proof (induction bs arbitrary: cur)
  case Nil
  then show ?case by simp
next
  case (Cons b bs)
  have e: "length (stuff [] bs) \<le> 2 + length bs + length bs div 254"
    using Cons.IH [of "[]"] by simp
  show ?case
  proof (cases "b = 0")
    case True
    have "length bs div 254 \<le> (length cur + Suc (length bs)) div 254"
      by (rule div_le_mono) simp
    with True e show ?thesis by simp
  next
    case False
    show ?thesis
    proof (cases "length cur = 253")
      case True
      have "(253 + Suc (length bs)) div 254 = Suc (length bs div 254)"
        by simp
      with True False e show ?thesis by simp
    next
      case f: False
      with Cons.prems have "length (cur @ [b]) < 254" by simp
      from Cons.IH [OF this] False f show ?thesis by simp
    qed
  qed
qed

lemma update_second:
  "(pre @ x # cur @ j # junk)[Suc (length pre + length cur) := b] = pre @ x # cur @ b # junk"
  using list_update_length [of "pre @ x # cur" j junk b] by simp

lemma encodeBody_inv:
  assumes inv: "enc_inv s pre cur junk"
    and cap: "length (stuff cur (b # bs)) \<le> 1 + length cur + length junk"
  shows "\<exists>s' pre' cur' junk'. encodeBody b s = Some s' \<and> enc_inv s' pre' cur' junk' \<and>
           pre' @ stuff cur' bs = pre @ stuff cur (b # bs) \<and>
           length (stuff cur' bs) \<le> 1 + length cur' + length junk' \<and>
           length (enc_output s') = length (enc_output s)"
proof -
  from inv obtain x where out: "enc_output s = pre @ x # cur @ junk"
    and ob: "enc_overheadByte s = length pre"
    and em: "enc_encodedMessage s = length pre + 1 + length cur"
    and oc: "enc_overheadCount s = of_nat (length cur + 1)"
    and len: "length cur < 254"
    by (auto simp: enc_inv_def)
  have two: "2 \<le> length (stuff [] bs)"
    using stuff_length_ge [of "[]" bs] by simp
  show ?thesis
  proof (cases "b = 0")
    case True
    with cap two have "2 \<le> length junk" by simp
    then obtain j junk' where junk: "junk = j # junk'"
      by (cases junk) auto
    let ?c = "of_nat (length cur + 1) :: u8"
    let ?s' = "s\<lparr>enc_output := pre @ ?c # cur @ j # junk', enc_overheadCount := 0x01,
                  enc_overheadByte := length pre + 1 + length cur,
                  enc_encodedMessage := length pre + 1 + length cur + 1\<rparr>"
    have 1: "encodeBody b s = Some ?s'"
      using True by (simp add: encodeBody_def poke_def ASCII_NULL_def out ob em oc junk)
    have 2: "enc_inv ?s' (pre @ ?c # cur) [] junk'"
      by (simp add: enc_inv_def)
    have 3: "(pre @ ?c # cur) @ stuff [] bs = pre @ stuff cur (b # bs)"
      using True by simp
    have 4: "length (stuff [] bs) \<le> 1 + length ([]::u8 list) + length junk'"
      using cap True junk by simp
    have 5: "length (enc_output ?s') = length (enc_output s)"
      by (simp add: out junk)
    from 1 2 3 4 5 show ?thesis by blast
  next
    case nz: False
    from cap stuff_length_ge [of "cur @ [b]" bs] two have "1 \<le> length junk"
      by (simp split: if_splits)
    then obtain j junk' where junk: "junk = j # junk'"
      by (cases junk) auto
    have poke1: "poke (enc_output s) (enc_encodedMessage s) b = Some (pre @ x # cur @ b # junk')"
      by (simp add: poke_def out em junk update_second)
    show ?thesis
    proof (cases "length cur = 253")
      case True
      with cap nz two junk have "1 \<le> length junk'" by simp
      then obtain j' junk'' where junk': "junk' = j' # junk''"
        by (cases junk') auto
      let ?s' = "s\<lparr>enc_output := pre @ 0xFF # cur @ b # j' # junk'', enc_overheadCount := 0x01,
                    enc_overheadByte := length pre + 1 + length cur + 1,
                    enc_encodedMessage := length pre + 1 + length cur + 2\<rparr>"
      have 1: "encodeBody b s = Some ?s'"
        using nz True
        by (simp add: encodeBody_def poke1 ASCII_NULL_def MAX_BLOCK_SIZE_def)
           (simp add: poke_def ob em oc junk')
      have 2: "enc_inv ?s' (pre @ 0xFF # cur @ [b]) [] junk''"
        by (simp add: enc_inv_def)
      have 3: "(pre @ 0xFF # cur @ [b]) @ stuff [] bs = pre @ stuff cur (b # bs)"
        using nz True by simp
      have 4: "length (stuff [] bs) \<le> 1 + length ([]::u8 list) + length junk''"
        using cap nz True junk junk' by simp
      have 5: "length (enc_output ?s') = length (enc_output s)"
        by (simp add: out junk junk')
      from 1 2 3 4 5 show ?thesis by blast
    next
      case nf: False
      with len have len': "length cur + 2 < 255" by simp
      then have ne: "(of_nat (length cur + 1) + 1 :: u8) \<noteq> 0xFF"
        using u8_of_nat_eq_255 [of "length cur + 2"] by simp
      let ?s' = "s\<lparr>enc_output := pre @ x # cur @ b # junk',
                    enc_encodedMessage := length pre + 1 + length cur + 1,
                    enc_overheadCount := of_nat (length cur + 1) + 1\<rparr>"
      have 1: "encodeBody b s = Some ?s'"
        using nz ne
        by (simp add: encodeBody_def poke1 ASCII_NULL_def MAX_BLOCK_SIZE_def)
           (simp add: em oc)
      have 2: "enc_inv ?s' pre (cur @ [b]) junk'"
        using len' by (simp add: enc_inv_def ob)
      have 3: "pre @ stuff (cur @ [b]) bs = pre @ stuff cur (b # bs)"
        using nz nf by simp
      have 4: "length (stuff (cur @ [b]) bs) \<le> 1 + length (cur @ [b]) + length junk'"
        using cap nz nf junk by simp
      have 5: "length (enc_output ?s') = length (enc_output s)"
        by (simp add: out junk)
      from 1 2 3 4 5 show ?thesis by blast
    qed
  qed
qed

lemma encodeList_inv:
  "enc_inv s pre cur junk \<Longrightarrow> length (stuff cur bs) \<le> 1 + length cur + length junk \<Longrightarrow>
   \<exists>s' pre' cur' junk'. encodeList bs s = Some s' \<and> enc_inv s' pre' cur' junk' \<and>
      pre' @ stuff cur' [] = pre @ stuff cur bs \<and> junk' \<noteq> [] \<and>
      length (enc_output s') = length (enc_output s)"
proof (induction bs arbitrary: s pre cur junk)
  case Nil
  from Nil.prems(2) have "junk \<noteq> []" by auto
  with Nil.prems(1) show ?case by auto
next
  case (Cons b bs)
  from encodeBody_inv [OF Cons.prems]
  obtain s1 pre1 cur1 junk1 where b: "encodeBody b s = Some s1"
    and inv1: "enc_inv s1 pre1 cur1 junk1"
    and eq1: "pre1 @ stuff cur1 bs = pre @ stuff cur (b # bs)"
    and cap1: "length (stuff cur1 bs) \<le> 1 + length cur1 + length junk1"
    and len1: "length (enc_output s1) = length (enc_output s)"
    by blast
  from Cons.IH [OF inv1 cap1]
  obtain s' pre' cur' junk' where l: "encodeList bs s1 = Some s'"
    and inv': "enc_inv s' pre' cur' junk'"
    and eq': "pre' @ stuff cur' [] = pre1 @ stuff cur1 bs" and j': "junk' \<noteq> []"
    and len': "length (enc_output s') = length (enc_output s1)"
    by blast
  from b l have "encodeList (b # bs) s = Some s'" by simp
  moreover from eq' eq1 have "pre' @ stuff cur' [] = pre @ stuff cur (b # bs)"
    by (simp only:)
  moreover from len' len1 have "length (enc_output s') = length (enc_output s)"
    by simp
  ultimately show ?case using inv' j' by blast
qed

lemma encode_finish:
  assumes inv: "enc_inv s pre cur junk" and junk: "junk \<noteq> []"
  shows "(poke (enc_output s) (enc_overheadByte s) (enc_overheadCount s) \<bind>
           (\<lambda>buf. poke buf (enc_encodedMessage s) ASCII_NULL \<bind>
             (\<lambda>buf. let actualLen = enc_encodedMessage s + 1
                     in Some (resize buf actualLen, to_uint32 actualLen))))
         = Some (pre @ stuff cur [], to_uint32 (length (pre @ stuff cur [])))"
proof -
  from inv obtain x where out: "enc_output s = pre @ x # cur @ junk"
    and ob: "enc_overheadByte s = length pre"
    and em: "enc_encodedMessage s = length pre + 1 + length cur"
    and oc: "enc_overheadCount s = of_nat (length cur + 1)"
    by (auto simp: enc_inv_def)
  from junk obtain j junk' where j: "junk = j # junk'"
    by (cases junk) auto
  have 1: "poke (enc_output s) (enc_overheadByte s) (enc_overheadCount s)
             = Some (pre @ of_nat (length cur + 1) # cur @ j # junk')"
    by (simp add: poke_def out ob oc j)
  have 2: "poke (pre @ of_nat (length cur + 1) # cur @ j # junk') (enc_encodedMessage s) ASCII_NULL
             = Some (pre @ of_nat (length cur + 1) # cur @ 0 # junk')"
    by (simp add: poke_def em update_second ASCII_NULL_def)
  have 3: "resize (pre @ of_nat (length cur + 1) # cur @ 0 # junk') (enc_encodedMessage s + 1)
             = pre @ stuff cur []"
    by (simp add: resize_def em)
  have 4: "enc_encodedMessage s + 1 = length (pre @ stuff cur [])"
    by (simp add: em)
  show ?thesis
    unfolding 1 by (simp only: bind.bind_lunit 2 Let_def 3) (simp only: 4)
qed

lemma length_message_bytes: "length (message_bytes input crc 0 n) = n"
  by (simp add: message_bytes_def)

lemma encodeMessage_stuff:
  "encodeMessage input =
     Some (stuff [] (message input), to_uint32 (length (stuff [] (message input))))"
proof -
  let ?n = "messageSize_of (length input)"
  let ?s0 = "\<lparr>enc_output = resize [] (expectedLen_of ?n), enc_encodedMessage = 1,
               enc_overheadByte = 0, enc_overheadCount = 0x01\<rparr>"
  have r: "resize [] (expectedLen_of ?n) = 0 # replicate (expectedLen_of ?n - 1) 0"
    by (simp add: resize_def expectedLen_of_def)
  have inv0: "enc_inv ?s0 [] [] (replicate (expectedLen_of ?n - 1) 0)"
    by (simp add: enc_inv_def r)
  have cap0: "length (stuff [] (message input))
      \<le> 1 + length ([]::u8 list) + length (replicate (expectedLen_of ?n - 1) (0::u8))"
    using stuff_length_le [of "[]" "message input"]
    by (simp add: message_def length_message_bytes expectedLen_of_def)
  from encodeList_inv [OF inv0 cap0]
  obtain s' pre' cur' junk' where l: "encodeList (message input) ?s0 = Some s'"
    and inv': "enc_inv s' pre' cur' junk'"
    and eq': "pre' @ stuff cur' [] = stuff [] (message input)" and j': "junk' \<noteq> []"
    by auto
  have "encodeLoop input (calculateCRC input (length input)) ?n 0 ?s0 = Some s'"
    using l by (simp add: encodeLoop_list message_def)
  then show ?thesis
    unfolding encodeMessage_def Let_def
    by (simp only: bind.bind_lunit encode_finish [OF inv' j', unfolded Let_def] eq')
qed

subsection \<open>The decoding loop\<close>

lemma decodeLoop_unstuff:
  "dec_encodedMessage s \<le> length input \<Longrightarrow>
   dec_output (decodeLoop input s) =
     unstuff (drop (dec_encodedMessage s) input) (dec_blockSize s) (dec_overheadCount s)
       (dec_output s)"
proof (induction input s rule: decodeLoop.induct)
  case (1 input s)
  show ?case
  proof (cases "dec_encodedMessage s < length input")
    case False
    with "1.prems" show ?thesis
      by (subst decodeLoop.simps) simp
  next
    case True
    note d = Cons_nth_drop_Suc [OF True, symmetric]
    show ?thesis
    proof (cases "0 < dec_blockSize s")
      case bs: True
      let ?s' = "s\<lparr>dec_output := dec_output s @ [input ! dec_encodedMessage s],
                    dec_encodedMessage := dec_encodedMessage s + 1\<rparr>"
      have b: "decodeBody input s = Next ?s'"
        using bs by (simp add: decodeBody_def)
      from "1.IH" [OF True b] True
      have "dec_output (decodeLoop input (?s'\<lparr>dec_blockSize := dec_blockSize ?s' - 1\<rparr>)) =
          unstuff (drop (Suc (dec_encodedMessage s)) input) (dec_blockSize s - 1)
            (dec_overheadCount s) (dec_output s @ [input ! dec_encodedMessage s])"
        by simp
      then show ?thesis
        using True bs b by (subst decodeLoop.simps) (simp add: d)
    next
      case nbs: False
      show ?thesis
      proof (cases "input ! dec_encodedMessage s = 0")
        case z: True
        have b: "decodeBody input s = Break (s\<lparr>dec_blockSize := input ! dec_encodedMessage s,
                    dec_encodedMessage := dec_encodedMessage s + 1\<rparr>)"
          using nbs z by (simp add: decodeBody_def ASCII_NULL_def)
        show ?thesis
          using True nbs z b by (subst decodeLoop.simps) (simp add: d)
      next
        case nz: False
        let ?s' = "s\<lparr>dec_blockSize := input ! dec_encodedMessage s,
                      dec_encodedMessage := dec_encodedMessage s + 1,
                      dec_output := (if dec_overheadCount s \<noteq> 0xFF then dec_output s @ [0]
                                     else dec_output s),
                      dec_overheadCount := input ! dec_encodedMessage s\<rparr>"
        have b: "decodeBody input s = Next ?s'"
          using nbs nz by (simp add: decodeBody_def ASCII_NULL_def MAX_BLOCK_SIZE_def Let_def)
        from "1.IH" [OF True b] True
        have "dec_output (decodeLoop input (?s'\<lparr>dec_blockSize := dec_blockSize ?s' - 1\<rparr>)) =
            unstuff (drop (Suc (dec_encodedMessage s)) input) (input ! dec_encodedMessage s - 1)
              (input ! dec_encodedMessage s)
              (if dec_overheadCount s \<noteq> 0xFF then dec_output s @ [0] else dec_output s)"
          by simp
        then show ?thesis
          using True nbs nz b by (subst decodeLoop.simps) (simp add: d)
      qed
    qed
  qed
qed

lemma unstuff_copy:
  "length lits < 256 \<Longrightarrow>
   unstuff (lits @ rest) (of_nat (length lits)) oc out = unstuff rest 0 oc (out @ lits)"
proof (induction lits arbitrary: out)
  case Nil
  show ?case by (cases rest) simp_all
next
  case (Cons l lits)
  from Cons.prems have "(of_nat (Suc (length lits)) :: u8) \<noteq> 0"
    using u8_of_nat_eq_0 [of "Suc (length lits)"] by simp
  then have pos: "0 < (of_nat (Suc (length lits)) :: u8)"
    by (simp add: word_greater_zero_iff)
  have "unstuff ((l # lits) @ rest) (of_nat (length (l # lits))) oc out =
        unstuff (lits @ rest) (of_nat (length lits)) oc (out @ [l])"
    using pos by simp
  also have "\<dots> = unstuff rest 0 oc ((out @ [l]) @ lits)"
    using Cons.prems by (intro Cons.IH) simp
  finally show ?case by simp
qed

lemma unstuff_block:
  assumes "length lits < 255"
  shows "unstuff (of_nat (length lits + 1) # lits @ rest) 0 oc out =
         unstuff rest 0 (of_nat (length lits + 1))
           ((if oc \<noteq> 0xFF then out @ [0] else out) @ lits)"
proof -
  from assms have nz: "(of_nat (length lits + 1) :: u8) \<noteq> 0"
    using u8_of_nat_eq_0 [of "length lits + 1"] by simp
  have "unstuff (of_nat (length lits + 1) # lits @ rest) 0 oc out =
        unstuff (lits @ rest) (of_nat (length lits)) (of_nat (length lits + 1))
          (if oc \<noteq> 0xFF then out @ [0] else out)"
    using nz by simp
  also have "\<dots> = unstuff rest 0 (of_nat (length lits + 1))
          ((if oc \<noteq> 0xFF then out @ [0] else out) @ lits)"
    using assms by (intro unstuff_copy) simp
  finally show ?thesis .
qed

lemma unstuff_stuff:
  "length cur < 254 \<Longrightarrow>
   unstuff (stuff cur bs) 0 oc out = (if oc \<noteq> 0xFF then out @ [0] else out) @ cur @ bs"
proof (induction bs arbitrary: cur oc out)
  case Nil
  have "unstuff (of_nat (length cur + 1) # cur @ [0]) 0 oc out =
        unstuff [0] 0 (of_nat (length cur + 1)) ((if oc \<noteq> 0xFF then out @ [0] else out) @ cur)"
    using Nil by (intro unstuff_block) simp
  then show ?case by simp
next
  case (Cons b bs)
  let ?out = "if oc \<noteq> 0xFF then out @ [0] else out"
  show ?case
  proof (cases "b = 0")
    case True
    from Cons.prems have ne: "(of_nat (length cur + 1) :: u8) \<noteq> 0xFF"
      using u8_of_nat_eq_255 [of "length cur + 1"] by simp
    have "unstuff (stuff cur (b # bs)) 0 oc out =
          unstuff (of_nat (length cur + 1) # cur @ stuff [] bs) 0 oc out"
      using True by simp
    also have "\<dots> = unstuff (stuff [] bs) 0 (of_nat (length cur + 1)) (?out @ cur)"
      using Cons.prems by (intro unstuff_block) simp
    also have "\<dots> = ((?out @ cur) @ [0]) @ [] @ bs"
      using Cons.IH [of "[]" "of_nat (length cur + 1)" "?out @ cur"] ne by simp
    finally show ?thesis using True by simp
  next
    case nz: False
    show ?thesis
    proof (cases "length cur = 253")
      case True
      have "unstuff (stuff cur (b # bs)) 0 oc out =
            unstuff (of_nat (length (cur @ [b]) + 1) # (cur @ [b]) @ stuff [] bs) 0 oc out"
        using nz True by simp
      also have "\<dots> = unstuff (stuff [] bs) 0 (of_nat (length (cur @ [b]) + 1))
            (?out @ (cur @ [b]))"
        using True by (intro unstuff_block) simp
      also have "\<dots> = (?out @ (cur @ [b])) @ [] @ bs"
        using Cons.IH [of "[]" "0xFF" "?out @ (cur @ [b])"] True by simp
      finally show ?thesis by simp
    next
      case False
      with Cons.prems have "length (cur @ [b]) < 254" by simp
      from Cons.IH [OF this, of oc out] nz False show ?thesis by simp
    qed
  qed
qed

subsection \<open>Properties of the encoded frame\<close>

lemma stuff_sentinel:
  "length cur < 254 \<Longrightarrow> 0 \<notin> set cur \<Longrightarrow> \<exists>ys. stuff cur bs = ys @ [0] \<and> 0 \<notin> set ys"
proof (induction bs arbitrary: cur)
  case Nil
  from Nil.prems have "(of_nat (length cur + 1) :: u8) \<noteq> 0"
    using u8_of_nat_eq_0 [of "length cur + 1"] by simp
  with Nil.prems have "stuff cur [] = (of_nat (length cur + 1) # cur) @ [0] \<and>
      0 \<notin> set (of_nat (length cur + 1) # cur)"
    by simp
  then show ?case by blast
next
  case (Cons b bs)
  from Cons.prems have c: "(of_nat (length cur + 1) :: u8) \<noteq> 0"
    using u8_of_nat_eq_0 [of "length cur + 1"] by simp
  from Cons.IH [of "[]"] obtain ys where ys: "stuff [] bs = ys @ [0]" "0 \<notin> set ys"
    by auto
  show ?case
  proof (cases "b = 0")
    case True
    with ys c Cons.prems
    have "stuff cur (b # bs) = (of_nat (length cur + 1) # cur @ ys) @ [0] \<and>
      0 \<notin> set (of_nat (length cur + 1) # cur @ ys)"
      by simp
    then show ?thesis by blast
  next
    case nz: False
    show ?thesis
    proof (cases "length cur = 253")
      case True
      with ys nz Cons.prems
      have "stuff cur (b # bs) = (0xFF # cur @ b # ys) @ [0] \<and>
        0 \<notin> set (0xFF # cur @ b # ys)"
        by simp
      then show ?thesis by blast
    next
      case False
      with Cons.prems nz have "length (cur @ [b]) < 254" "0 \<notin> set (cur @ [b])"
        by auto
      from Cons.IH [OF this] nz False show ?thesis by simp
    qed
  qed
qed

subsection \<open>The checksum loop and the logical message\<close>

lemma calculateCRC_loop_foldl:
  "len \<le> length data \<Longrightarrow>
   calculateCRC_loop data len i crc = foldl (XOR) crc (drop i (take len data))"
proof (induction data len i crc rule: calculateCRC_loop.induct)
  case (1 data len i crc)
  show ?case
  proof (cases "i < len")
    case True
    with "1.prems" have "drop i (take len data) = data ! i # drop (Suc i) (take len data)"
      by (simp add: Cons_nth_drop_Suc [symmetric])
    with True "1" show ?thesis
      by (subst calculateCRC_loop.simps) simp
  next
    case False
    then show ?thesis
      by (subst calculateCRC_loop.simps) simp
  qed
qed

lemma calculateCRC_foldl: "calculateCRC data (length data) = foldl (XOR) 0 data"
  by (simp add: calculateCRC_def calculateCRC_loop_foldl)

lemma message_full:
  assumes "length p + 1 < 2 ^ 32"
  shows "message p = p @ [calculateCRC p (length p)]"
  using assms
  by (simp add: message_def messageSize_of_def to_uint32_def message_bytes_full [simplified])

lemma length_message: "length (message p) = messageSize_of (length p)"
  by (simp add: message_def length_message_bytes)

lemma recovered_unstuff: "recovered input = unstuff input 0 0xFF []"
  by (simp add: recovered_def decodeLoop_unstuff decodeStart_def MAX_BLOCK_SIZE_def)

lemma recovered_stuff: "recovered (stuff [] bs) = bs"
  by (simp add: recovered_unstuff unstuff_stuff)

subsection \<open>Round trip\<close>

lemma roundtrip_general:
  assumes small: "length p + 1 < 2 ^ 32"
  shows "\<exists>frame n. encodeMessage p = Some (frame, n) \<and>
           decodeMessage frame m_message = (True, p)"
proof -
  from small have len: "to_uint32 (length p) = length p"
    by (simp add: to_uint32_def)
  have "recovered (stuff [] (message p)) = p @ [calculateCRC p (length p)]"
    by (simp add: recovered_stuff message_full [OF small])
  then have "decodeMessage (stuff [] (message p)) m_message = (True, p)"
    by (simp add: decodeMessage_def recovered_def [symmetric] Let_def len)
  then show ?thesis
    by (simp add: encodeMessage_stuff)
qed

subsection \<open>The end of the decoding loop\<close>



lemma decodeBody_pass:
  "\<exists>s'. (decodeBody input s = Next s' \<or> decodeBody input s = Break s') \<and>
     dec_encodedMessage s' = dec_encodedMessage s + 1 \<and>
     (decodeBody input s = Break s' \<longleftrightarrow>
        dec_blockSize s = 0 \<and> input ! dec_encodedMessage s = ASCII_NULL)"
  by (auto simp: decodeBody_def Let_def word_greater_zero_iff)

lemma decodeLoop_final:
  "dec_encodedMessage s \<le> length input \<Longrightarrow>
   dec_encodedMessage s \<le> dec_encodedMessage (decodeLoop input s) \<and>
   dec_encodedMessage (decodeLoop input s) \<le> length input \<and>
   (dec_encodedMessage (decodeLoop input s) = length input \<or>
    dec_encodedMessage s < dec_encodedMessage (decodeLoop input s) \<and>
    input ! (dec_encodedMessage (decodeLoop input s) - 1) = ASCII_NULL) \<and>
   length (dec_output (decodeLoop input s)) + dec_encodedMessage s
     \<le> length (dec_output s) + dec_encodedMessage (decodeLoop input s)"
proof (induction input s rule: decodeLoop.induct)
  case (1 input s)
  show ?case
  proof (cases "dec_encodedMessage s < length input")
    case False
    with "1.prems" show ?thesis
      by (subst (1 2 3 4 5 6) decodeLoop.simps) simp
  next
    case True
    show ?thesis
    proof (cases "decodeBody input s")
      case (Break s')
      with True have "decodeLoop input s = s'"
        by (subst decodeLoop.simps) simp
      moreover from Break have "dec_encodedMessage s' = dec_encodedMessage s + 1"
        "input ! dec_encodedMessage s = ASCII_NULL" "dec_output s' = dec_output s"
        by (auto simp: decodeBody_def Let_def split: if_splits)
      ultimately show ?thesis using True by simp
    next
      case (Next s')
      let ?s = "s'\<lparr>dec_blockSize := dec_blockSize s' - 1\<rparr>"
      from Next True have l: "decodeLoop input s = decodeLoop input ?s"
        by (subst decodeLoop.simps) simp
      from Next have p: "dec_encodedMessage ?s = dec_encodedMessage s + 1"
        and o: "length (dec_output ?s) \<le> length (dec_output s) + 1"
        by (auto simp: decodeBody_def Let_def split: if_splits)
      with True have "dec_encodedMessage ?s \<le> length input" by simp
      from "1.IH" [OF True Next this] p o show ?thesis
        unfolding l by auto
    qed
  qed
qed

lemma decodeLoop_break:
  assumes "dec_encodedMessage s < length input" and "dec_blockSize s = 0"
    and "input ! dec_encodedMessage s = ASCII_NULL"
  shows "decodeLoop input s =
     s\<lparr>dec_blockSize := ASCII_NULL, dec_encodedMessage := dec_encodedMessage s + 1\<rparr>"
  using assms by (subst decodeLoop.simps) (simp add: decodeBody_def)

lemma decodeLoop_sentinel_end:
  "dec_encodedMessage s \<le> length input \<Longrightarrow>
   dec_encodedMessage (decodeLoop input s) =
     sentinel_end input (dec_encodedMessage s + unat (dec_blockSize s))"
proof (induction input s rule: decodeLoop.induct)
  case (1 input s)
  show ?case
  proof (cases "dec_encodedMessage s < length input")
    case False
    then have "decodeLoop input s = s"
      by (subst decodeLoop.simps) simp
    moreover from False
    have "sentinel_end input (dec_encodedMessage s + unat (dec_blockSize s)) = length input"
      by (subst sentinel_end.simps) simp
    ultimately show ?thesis
      using False "1.prems" by simp
  next
    case True
    show ?thesis
    proof (cases "0 < dec_blockSize s")
      case bs: True
      let ?s' = "s\<lparr>dec_output := dec_output s @ [input ! dec_encodedMessage s],
                    dec_encodedMessage := dec_encodedMessage s + 1\<rparr>"
      have b: "decodeBody input s = Next ?s'"
        using bs by (simp add: decodeBody_def)
      from bs have "0 < unat (dec_blockSize s)"
        by (simp add: unat_gt_0 word_greater_zero_iff)
      then have u: "Suc (unat (dec_blockSize s - 1)) = unat (dec_blockSize s)"
        using bs by (simp add: unat_minus_one word_greater_zero_iff)
      from "1.IH" [OF True b] True
      have "dec_encodedMessage (decodeLoop input (?s'\<lparr>dec_blockSize := dec_blockSize ?s' - 1\<rparr>))
          = sentinel_end input (dec_encodedMessage s + Suc (unat (dec_blockSize s - 1)))"
        by simp
      then show ?thesis
        using True b by (subst decodeLoop.simps) (simp add: u)
    next
      case nbs: False
      then have z: "dec_blockSize s = 0"
        by (simp add: word_greater_zero_iff)
      show ?thesis
      proof (cases "input ! dec_encodedMessage s = 0")
        case True
        with \<open>dec_encodedMessage s < length input\<close> z
        have "sentinel_end input (dec_encodedMessage s + unat (dec_blockSize s))
            = dec_encodedMessage s + 1"
          by (subst sentinel_end.simps) simp
        moreover have "dec_encodedMessage (decodeLoop input s) = dec_encodedMessage s + 1"
          using decodeLoop_break [OF \<open>dec_encodedMessage s < length input\<close> z] True
          by (simp add: ASCII_NULL_def)
        ultimately show ?thesis by simp
      next
        case nz: False
        let ?n = "input ! dec_encodedMessage s"
        let ?s' = "s\<lparr>dec_blockSize := ?n,
                      dec_encodedMessage := dec_encodedMessage s + 1,
                      dec_output := (if dec_overheadCount s \<noteq> 0xFF then dec_output s @ [0]
                                     else dec_output s),
                      dec_overheadCount := ?n\<rparr>"
        have b: "decodeBody input s = Next ?s'"
          using nbs nz by (simp add: decodeBody_def ASCII_NULL_def MAX_BLOCK_SIZE_def Let_def)
        from nz have "0 < unat ?n"
          by (simp add: unat_gt_0)
        with nz have u: "Suc (unat (?n - 1)) = unat ?n"
          by (simp add: unat_minus_one)
        from "1.IH" [OF True b] True
        have "dec_encodedMessage (decodeLoop input (?s'\<lparr>dec_blockSize := dec_blockSize ?s' - 1\<rparr>))
            = sentinel_end input (dec_encodedMessage s + Suc (unat (?n - 1)))"
          by simp
        moreover have "sentinel_end input (dec_encodedMessage s + unat (dec_blockSize s))
            = sentinel_end input (dec_encodedMessage s + unat ?n)"
          using True nz z by (subst sentinel_end.simps) simp
        ultimately show ?thesis
          using True b by (subst decodeLoop.simps) (simp add: u)
      qed
    qed
  qed
qed

subsection \<open>The length of the frame\<close>

lemma zero_free_runs_literals:
  "0 \<notin> set bs \<Longrightarrow> zero_free_runs bs r = [r + length bs]"
  by (induction bs arbitrary: r) auto

lemma stuff_length_runs:
  "length cur = r mod 254 \<Longrightarrow>
   length (stuff cur bs) + r div 254 =
     2 + length cur + length bs + sum_list (map (\<lambda>x. x div 254) (zero_free_runs bs r))"
proof (induction bs arbitrary: cur r)
  case Nil
  show ?case by simp
next
  case (Cons b bs)
  show ?case
  proof (cases "b = 0")
    case True
    from Cons.IH [of "[]" 0] True show ?thesis by simp
  next
    case nz: False
    show ?thesis
    proof (cases "length cur = 253")
      case True
      with Cons.prems have "Suc r mod 254 = 0" "Suc r div 254 = Suc (r div 254)"
        by (simp_all add: mod_Suc div_Suc)
      with Cons.IH [of "[]" "Suc r"] nz True show ?thesis by simp
    next
      case False
      with Cons.prems have "length (cur @ [b]) = Suc r mod 254" "Suc r div 254 = r div 254"
        by (simp_all add: mod_Suc div_Suc)
      with Cons.IH [of "cur @ [b]" "Suc r"] nz False show ?thesis by simp
    qed
  qed
qed

lemma stuff_length_literals:
  "0 \<notin> set bs \<Longrightarrow> length (stuff [] bs) = length bs + length bs div 254 + 2"
  using stuff_length_runs [of "[]" 0 bs] by (simp add: zero_free_runs_literals)

subsection \<open>Frames of constant payloads\<close>

lemma xor_replicate_zero: "foldl (XOR) a (replicate k (0::u8)) = a"
  by (induction k arbitrary: a) simp_all

lemma xor_replicate_even: "foldl (XOR) a (replicate (2 * k) (b::u8)) = a"
  by (induction k arbitrary: a) (simp_all add: xor.assoc)

lemma stuff_zeros: "stuff [] (replicate k 0 @ bs) = replicate k 1 @ stuff [] bs"
  by (induction k) simp_all

lemma stuff_literals:
  "0 \<notin> set xs \<Longrightarrow> length cur + length xs < 254 \<Longrightarrow> stuff cur (xs @ bs) = stuff (cur @ xs) bs"
  by (induction xs arbitrary: cur) auto

lemma stuff_full_block:
  assumes "0 \<notin> set xs" and "length xs = 254"
  shows "stuff [] (xs @ bs) = 0xFF # xs @ stuff [] bs"
proof -
  from assms(2) have "xs \<noteq> []" by auto
  then obtain ys y where xs: "xs = ys @ [y]"
    by (cases xs rule: rev_cases) auto
  with assms have "0 \<notin> set ys" "length ys = 253" "y \<noteq> 0"
    by auto
  then have "stuff [] (ys @ y # bs) = 0xFF # ys @ y # stuff [] bs"
    using stuff_literals [of ys "[]" "y # bs"] by simp
  with xs show ?thesis by simp
qed

lemma replicate_254: "replicate 254 x = replicate 253 x @ [x]"
  using replicate_add [of 253 1 x] by (simp del: replicate_append_same)

lemma replicate_255: "replicate 255 x = replicate 253 x @ [x, x]"
  using replicate_add [of 253 2 x] by (simp add: numeral_2_eq_2 del: replicate_append_same)

lemma message_zeros_253: "message (replicate 253 0) = replicate 253 0 @ [0]"
proof -
  have "calculateCRC (replicate 253 0) 253 = 0"
    using calculateCRC_foldl [of "replicate 253 0"] by (simp add: xor_replicate_zero)
  then show ?thesis
    using message_full [of "replicate 253 0"] by (simp del: replicate_append_same)
qed

lemma message_ones_253: "message (replicate 253 1) = replicate 253 1 @ [1]"
proof -
  have "foldl (XOR) 0 (replicate (Suc (2 * 126)) (1::u8)) = 1"
    unfolding replicate_Suc foldl_Cons by (simp only: xor_replicate_even) simp
  then have "calculateCRC (replicate 253 1) 253 = 1"
    using calculateCRC_foldl [of "replicate 253 1"] by simp
  then show ?thesis
    using message_full [of "replicate 253 1"] by (simp del: replicate_append_same)
qed

lemma message_ones_254: "message (replicate 254 1) = replicate 254 1 @ [0]"
proof -
  have "calculateCRC (replicate 254 1) 254 = 0"
    using calculateCRC_foldl [of "replicate 254 1"] xor_replicate_even [of 0 127 1] by simp
  then show ?thesis
    using message_full [of "replicate 254 1"] by simp
qed

lemma encode_zeros_253:
  "encodeMessage (replicate 253 0x00) = Some (replicate 255 0x01 @ [0x00], 256)"
proof -
  have "stuff [] (replicate 253 0 @ [0]) = replicate 253 1 @ stuff [] [0]"
    by (rule stuff_zeros)
  also have "\<dots> = replicate 255 1 @ [0]"
    by (simp add: replicate_255 del: replicate_append_same)
  finally have s: "stuff [] (message (replicate 253 0)) = replicate 255 1 @ [0]"
    by (simp only: message_zeros_253)
  show ?thesis
    unfolding encodeMessage_stuff s by (simp add: to_uint32_def)
qed

lemma encode_ones_253:
  "encodeMessage (replicate 253 0x01) = Some (0xFF # replicate 254 0x01 @ [0x01, 0x00], 257)"
proof -
  have "stuff [] (replicate 254 1 @ []) = 0xFF # replicate 254 1 @ stuff [] []"
    by (rule stuff_full_block) simp_all
  then have "stuff [] (replicate 254 1) = 0xFF # replicate 254 1 @ [1, 0]"
    by simp
  then have s: "stuff [] (message (replicate 253 1)) = 0xFF # replicate 254 1 @ [1, 0]"
    by (simp only: message_ones_253 replicate_254)
  show ?thesis
    unfolding encodeMessage_stuff s by (simp add: to_uint32_def)
qed

lemma encode_ones_254:
  "encodeMessage (replicate 254 0x01) = Some (0xFF # replicate 254 0x01 @ [0x01, 0x01, 0x00], 258)"
proof -
  have "stuff [] (replicate 254 1 @ [0]) = 0xFF # replicate 254 1 @ stuff [] [0]"
    by (rule stuff_full_block) simp_all
  then have s: "stuff [] (message (replicate 254 1)) = 0xFF # replicate 254 1 @ [1, 1, 0]"
    by (simp add: message_ones_254)
  show ?thesis
    unfolding encodeMessage_stuff s by (simp add: to_uint32_def)
qed

lemma frame_blocks_ones_254:
  "frame_blocks (0xFF # replicate 254 0x01 @ [0x01, 0x01, 0x00]) =
     [0xFF # replicate 254 0x01, [0x01], [0x01]]"
  by simp

lemma recovered_full_block:
  "recovered (0xFF # replicate 254 0x01 @ rest) = unstuff rest 0 0xFF (replicate 254 0x01)"
  using unstuff_block [of "replicate 254 1" rest "0xFF" "[]"] by (simp add: recovered_unstuff)

section \<open>The claims\<close>

text \<open>
  C1 (round trip). For every payload \<open>p\<close> of at most \<open>MAX_FRAME_SIZE - 1\<close> bytes, with
  or without zero bytes in it, \<open>encodeMessage\<close> produces a frame on which
  \<open>decodeMessage\<close> returns true, and \<open>m_message\<close> is then exactly \<open>p\<close>, whatever it
  held before.
\<close>

theorem roundtrip:
  assumes "length p \<le> MAX_FRAME_SIZE - 1"
  shows "\<exists>frame n. encodeMessage p = Some (frame, n) \<and>
           decodeMessage frame m_message = (True, p)"
proof -
  from assms have "length p + 1 < 2 ^ 32"
    by (simp add: MAX_FRAME_SIZE_def)
  then show ?thesis
    by (rule roundtrip_general)
qed

theorem roundtrip_witness:
  "length [0x11, 0x00, 0x22 :: u8] \<le> MAX_FRAME_SIZE - 1 \<and>
   (\<exists>frame n. encodeMessage [0x11, 0x00, 0x22] = Some (frame, n) \<and>
      decodeMessage frame [0x07] = (True, [0x11, 0x00, 0x22]))"
  using roundtrip [of "[0x11, 0x00, 0x22]" "[0x07]"] by (simp add: MAX_FRAME_SIZE_def)

text \<open>
  C2 (no embedded sentinel). For every payload the byte \<open>0x00\<close> occurs exactly once in
  the frame that \<open>encodeMessage\<close> produces, as its last byte: every byte before the
  last one, overhead byte or literal byte, is non-zero.
\<close>

theorem encode_sentinel_last:
  "\<exists>frame n. encodeMessage p = Some (frame, n) \<and> frame \<noteq> [] \<and>
     last frame = ASCII_NULL \<and> ASCII_NULL \<notin> set (butlast frame) \<and>
     count_list frame ASCII_NULL = 1"
proof -
  from stuff_sentinel [of "[]" "message p"]
  obtain ys where ys: "stuff [] (message p) = ys @ [0]" "0 \<notin> set ys"
    by auto
  then have "count_list (ys @ [0]) 0 = 1"
    by (simp add: count_list_0_iff)
  with ys show ?thesis
    by (simp add: encodeMessage_stuff ASCII_NULL_def)
qed



text \<open>
  C4 (length of the frame) fails as stated. The claimed length
  \<open>len p + 1 + (len p + 1) div 254 + 1\<close> is 2 for the empty payload, whose frame has
  three bytes.
\<close>

theorem encode_length_counterexample:
  "encodeMessage [] = Some ([0x01, 0x01, 0x00], 3) \<and>
   length [0x01, 0x01, 0x00 :: u8] \<noteq>
     length ([] :: u8 list) + 1 + (length ([] :: u8 list) + 1) div 254 + 1 \<and>
   (3 :: nat) \<noteq> length ([] :: u8 list) + 1 + (length ([] :: u8 list) + 1) div 254 + 1"
proof -
  have "calculateCRC [] 0 = 0"
    by (simp add: calculateCRC_def calculateCRC_loop.simps)
  then have "message [] = [0]"
    using message_full [of "[]"] by simp
  then show ?thesis
    by (simp add: encodeMessage_stuff to_uint32_def)
qed

text \<open>
  C4, amended. For a payload \<open>p\<close> with \<open>len p + 1 < 2 ^ 32\<close> the frame has at least
  \<open>len p + 3\<close> and at most \<open>len p + 1 + (len p + 1) div 254 + 2\<close> bytes, and exactly
  the latter number when neither a byte of \<open>p\<close> nor its checksum is \<open>0x00\<close>; the
  returned value is the length of the frame converted to \<^verbatim>\<open>uint32_t\<close>.
\<close>

theorem encode_length_bounds:
  assumes "length p + 1 < 2 ^ 32"
  shows "\<exists>frame n. encodeMessage p = Some (frame, n) \<and> n = to_uint32 (length frame) \<and>
     length p + 3 \<le> length frame \<and>
     length frame \<le> length p + 1 + (length p + 1) div 254 + 2 \<and>
     (ASCII_NULL \<notin> set p \<and> calculateCRC p (length p) \<noteq> ASCII_NULL \<longrightarrow>
        length frame = length p + 1 + (length p + 1) div 254 + 2)"
proof -
  note m = message_full [OF assms]
  have "length p + 3 \<le> length (stuff [] (message p))"
    using stuff_length_runs [of "[]" 0 "message p"] by (simp add: m)
  moreover have "length (stuff [] (message p)) \<le> length p + 1 + (length p + 1) div 254 + 2"
    using stuff_length_le [of "[]" "message p"] by (simp add: m)
  moreover have "ASCII_NULL \<notin> set p \<and> calculateCRC p (length p) \<noteq> ASCII_NULL \<longrightarrow>
      length (stuff [] (message p)) = length p + 1 + (length p + 1) div 254 + 2"
    using stuff_length_literals [of "message p"] by (auto simp: m ASCII_NULL_def)
  ultimately show ?thesis
    by (simp add: encodeMessage_stuff)
qed

theorem encode_length_bounds_witness:
  "length [0x01, 0x02 :: u8] + 1 < 2 ^ 32 \<and> ASCII_NULL \<notin> set [0x01, 0x02] \<and>
   calculateCRC [0x01, 0x02] (length [0x01, 0x02 :: u8]) \<noteq> ASCII_NULL \<and>
   (\<exists>frame n. encodeMessage [0x01, 0x02] = Some (frame, n) \<and> n = 5 \<and> length frame = 5)"
proof -
  have c: "calculateCRC [0x01, 0x02] (Suc (Suc 0)) = 0x03"
    using calculateCRC_foldl [of "[0x01, 0x02]"] by simp
  show ?thesis
    using encode_length_bounds [of "[0x01, 0x02]"]
    by (auto simp: c ASCII_NULL_def to_uint32_def)
qed

text \<open>
  C5 (the length as a function of the size alone) fails as stated. Two payloads of
  253 bytes have frames of different lengths: 253 zero bytes give 256 bytes, not
  \<open>254 + 254 div 254 + 2 = 257\<close>, and 253 bytes \<open>0x01\<close> give 257.
\<close>

theorem encode_length_content_counterexample:
  "encodeMessage (replicate 253 0x00) = Some (replicate 255 0x01 @ [0x00], 256) \<and>
   length (replicate 255 (0x01::u8) @ [0x00]) \<noteq>
     (length (replicate 253 (0x00::u8)) + 1) + (length (replicate 253 (0x00::u8)) + 1) div 254 + 2 \<and>
   encodeMessage (replicate 253 0x01) = Some (0xFF # replicate 254 0x01 @ [0x01, 0x00], 257)"
  by (simp only: encode_zeros_253 encode_ones_253) simp

text \<open>
  C5, amended. For a payload \<open>p\<close> with \<open>len p + 1 < 2 ^ 32\<close> the length of the frame is
  \<open>messageSize + 2\<close> plus, for every maximal run of non-zero bytes of the logical
  message (payload followed by checksum), the run's length divided by 254: it depends
  on the size and on where the zero bytes are, and on nothing else. It never exceeds
  \<open>expectedLen = messageSize + messageSize div 254 + 2\<close>, the size the vector is given
  before the loop.
\<close>

theorem encode_length_runs:
  assumes "length p + 1 < 2 ^ 32"
  shows "\<exists>frame n. encodeMessage p = Some (frame, n) \<and>
     length frame =
       (length p + 1) +
       sum_list (map (\<lambda>r. r div 254) (zero_free_runs (p @ [calculateCRC p (length p)]) 0)) + 2 \<and>
     length frame \<le> expectedLen_of (messageSize_of (length p))"
proof -
  have "length (stuff [] (message p)) \<le> expectedLen_of (messageSize_of (length p))"
    using stuff_length_le [of "[]" "message p"]
    by (simp add: length_message expectedLen_of_def)
  then show ?thesis
    using stuff_length_runs [of "[]" 0 "message p"]
    by (simp add: encodeMessage_stuff message_full [OF assms])
qed

theorem encode_length_runs_witness:
  "length [0x01, 0x00, 0x02 :: u8] + 1 < 2 ^ 32 \<and>
   zero_free_runs ([0x01, 0x00, 0x02] @ [calculateCRC [0x01, 0x00, 0x02] (length [0x01, 0x00, 0x02 :: u8])]) 0
     = [1, 2] \<and>
   (\<exists>frame n. encodeMessage [0x01, 0x00, 0x02] = Some (frame, n) \<and> length frame = 6)"
proof -
  have c: "calculateCRC [0x01, 0x00, 0x02] (Suc (Suc (Suc 0))) = 0x03"
    using calculateCRC_foldl [of "[0x01, 0x00, 0x02]"] by simp
  show ?thesis
    using encode_length_runs [of "[0x01, 0x00, 0x02]"]
    by (auto simp: c)
qed

text \<open>
  C6 (full block) fails as stated. The checksum of 254 bytes \<open>0x01\<close> is \<open>0x00\<close>, so
  the frame has three blocks before the sentinel, not two.
\<close>

theorem full_block_counterexample:
  "encodeMessage (replicate 254 0x01) = Some (0xFF # replicate 254 0x01 @ [0x01, 0x01, 0x00], 258) \<and>
   length (frame_blocks (0xFF # replicate 254 0x01 @ [0x01, 0x01, 0x00])) \<noteq> 2"
  by (simp only: encode_ones_254 frame_blocks_ones_254) simp

text \<open>
  C6, amended. The frame of 254 bytes \<open>0x01\<close> is the overhead byte \<open>0xFF\<close>, the 254
  literal bytes, two blocks that are the overhead byte \<open>0x01\<close> alone, and the sentinel:
  258 bytes, three blocks. Decoding the frame up to and including the overhead byte
  that follows the full block recovers the 254 literal bytes and nothing else, so no
  sentinel is put back after the full block; the one zero byte of the recovered
  sequence is the checksum, put back when the third overhead byte is read.
  \<open>decodeMessage\<close> returns true and stores the 254 bytes.
\<close>

theorem full_block:
  "encodeMessage (replicate 254 0x01) = Some (0xFF # replicate 254 0x01 @ [0x01, 0x01, 0x00], 258) \<and>
   frame_blocks (0xFF # replicate 254 0x01 @ [0x01, 0x01, 0x00]) =
     [0xFF # replicate 254 0x01, [0x01], [0x01]] \<and>
   recovered (0xFF # replicate 254 0x01 @ [0x01]) = replicate 254 0x01 \<and>
   recovered (0xFF # replicate 254 0x01 @ [0x01, 0x01, 0x00]) = replicate 254 0x01 @ [0x00] \<and>
   decodeMessage (0xFF # replicate 254 0x01 @ [0x01, 0x01, 0x00]) m_message
     = (True, replicate 254 0x01)"
proof -
  have 1: "recovered (0xFF # replicate 254 0x01 @ [0x01]) = replicate 254 0x01"
    by (simp only: recovered_full_block) simp
  have 2: "recovered (0xFF # replicate 254 0x01 @ [0x01, 0x01, 0x00]) = replicate 254 0x01 @ [0x00]"
    by (simp only: recovered_full_block) simp
  have 3: "decodeMessage (0xFF # replicate 254 0x01 @ [0x01, 0x01, 0x00]) m_message
     = (True, replicate 254 0x01)"
    using roundtrip_general [of "replicate 254 1" m_message] encode_ones_254 by simp
  show ?thesis
    by (simp only: encode_ones_254 frame_blocks_ones_254 1 2 3) 
qed

text \<open>
  C7 (empty payload). The checksum of the empty payload is zero, the sentinel value;
  \<open>encodeMessage\<close> of the empty payload gives the three bytes \<open>0x01, 0x01, 0x00\<close> and
  returns 3; \<open>decodeMessage\<close> of that frame returns true and leaves the empty payload
  in \<open>m_message\<close>.
\<close>

theorem empty_payload:
  "calculateCRC [] 0 = ASCII_NULL \<and>
   encodeMessage [] = Some ([0x01, 0x01, 0x00], 3) \<and>
   decodeMessage [0x01, 0x01, 0x00] m_message = (True, [])"
proof -
  have c: "calculateCRC [] 0 = 0"
    by (simp add: calculateCRC_def calculateCRC_loop.simps)
  have m: "message [] = [0]"
    using message_full [of "[]"] by (simp add: c)
  have e: "encodeMessage [] = Some ([0x01, 0x01, 0x00], 3)"
    by (simp add: encodeMessage_stuff m to_uint32_def)
  have "recovered [0x01, 0x01, 0x00] = [0]"
    by (simp add: recovered_unstuff)
  then have d: "decodeMessage [0x01, 0x01, 0x00] m_message = (True, [])"
    by (simp add: decodeMessage_def recovered_def [symmetric] Let_def c to_uint32_def)
  from c e d show ?thesis
    by (simp add: ASCII_NULL_def)
qed

text \<open>
  C8 (checksum). \<open>calculateCRC data len\<close> is the exclusive or of the first \<open>len\<close> bytes
  of \<open>data\<close>, folded from the left into an accumulator that starts at 0, and it is 0
  for \<open>len = 0\<close>. It is a function of its arguments alone and returns nothing but the
  checksum byte, so the buffer is only read.
\<close>

theorem calculateCRC_xor:
  assumes "len \<le> length data"
  shows "calculateCRC data len = foldl (XOR) 0 (take len data) \<and> calculateCRC data 0 = 0"
  using assms by (simp add: calculateCRC_def calculateCRC_loop_foldl)

theorem calculateCRC_xor_witness:
  "(2::nat) \<le> length [0x0F, 0x35, 0xAA :: u8] \<and>
   calculateCRC [0x0F, 0x35, 0xAA] 2 = foldl (XOR) 0 (take 2 [0x0F, 0x35, 0xAA]) \<and>
   calculateCRC [0x0F, 0x35, 0xAA] 2 = 0x3A \<and>
   calculateCRC [0x0F, 0x35, 0xAA] 0 = 0"
  using calculateCRC_xor [of 2 "[0x0F, 0x35, 0xAA]"] by simp

text \<open>
  C9 (the decoder is total). \<open>decodeLoop\<close> is defined by a recursion whose measure, the
  number of bytes not yet read, was shown to decrease, so it returns for every input.
  Every pass through the loop body reads exactly one byte, and it breaks exactly when
  that byte is a zero read as an overhead byte. At such a byte the loop returns at
  once: it has read that byte and nothing behind it, and the output is as it was. With
  no byte left to read the loop returns the state unchanged. From the start the loop
  therefore ends just behind the first zero byte in overhead position, or at the end of
  the input when there is none, whether the input lacks a sentinel, announces more
  bytes than remain, or is empty; it has produced no more bytes than it has read.
  \<open>decodeMessage\<close> then has one of two results: false with \<open>m_message\<close> untouched, or
  true with the recovered payload; there is no third result for a malformed input.
\<close>

theorem decode_terminates:
  "(dec_encodedMessage s < length input \<longrightarrow>
      (\<exists>s'. (decodeBody input s = Next s' \<or> decodeBody input s = Break s') \<and>
         dec_encodedMessage s' = dec_encodedMessage s + 1 \<and>
         (decodeBody input s = Break s' \<longleftrightarrow>
            dec_blockSize s = 0 \<and> input ! dec_encodedMessage s = ASCII_NULL))) \<and>
   (dec_encodedMessage s < length input \<and> dec_blockSize s = 0 \<and>
    input ! dec_encodedMessage s = ASCII_NULL \<longrightarrow>
      decodeLoop input s =
        s\<lparr>dec_blockSize := ASCII_NULL, dec_encodedMessage := dec_encodedMessage s + 1\<rparr>) \<and>
   (\<not> dec_encodedMessage s < length input \<longrightarrow> decodeLoop input s = s) \<and>
   dec_encodedMessage (decodeLoop input decodeStart) = sentinel_end input 0 \<and>
   dec_encodedMessage (decodeLoop input decodeStart) \<le> length input \<and>
   (dec_encodedMessage (decodeLoop input decodeStart) = length input \<or>
    0 < dec_encodedMessage (decodeLoop input decodeStart) \<and>
    input ! (dec_encodedMessage (decodeLoop input decodeStart) - 1) = ASCII_NULL) \<and>
   length (recovered input) \<le> dec_encodedMessage (decodeLoop input decodeStart) \<and>
   (decodeMessage input m_message = (False, m_message) \<or>
    decodeMessage input m_message = (True, butlast (recovered input)))"
proof -
  have start: "dec_encodedMessage decodeStart \<le> length input"
    by (simp add: decodeStart_def)
  from decodeLoop_final [OF start]
  have "dec_encodedMessage (decodeLoop input decodeStart) \<le> length input \<and>
   (dec_encodedMessage (decodeLoop input decodeStart) = length input \<or>
    0 < dec_encodedMessage (decodeLoop input decodeStart) \<and>
    input ! (dec_encodedMessage (decodeLoop input decodeStart) - 1) = ASCII_NULL) \<and>
   length (recovered input) \<le> dec_encodedMessage (decodeLoop input decodeStart)"
    by (auto simp: decodeStart_def recovered_def)
  moreover have "decodeMessage input m_message = (False, m_message) \<or>
    decodeMessage input m_message = (True, butlast (recovered input))"
    by (simp add: decodeMessage_def recovered_def [symmetric] Let_def)
  moreover have "dec_encodedMessage (decodeLoop input decodeStart) = sentinel_end input 0"
    using decodeLoop_sentinel_end [OF start] by (simp add: decodeStart_def)
  moreover have "dec_encodedMessage s < length input \<and> dec_blockSize s = 0 \<and>
    input ! dec_encodedMessage s = ASCII_NULL \<longrightarrow>
      decodeLoop input s =
        s\<lparr>dec_blockSize := ASCII_NULL, dec_encodedMessage := dec_encodedMessage s + 1\<rparr>"
    using decodeLoop_break [of s input] by blast
  moreover have "\<not> dec_encodedMessage s < length input \<longrightarrow> decodeLoop input s = s"
    by (subst decodeLoop.simps) simp
  ultimately show ?thesis
    using decodeBody_pass [of input s] by blast
qed

theorem decode_terminates_witness:
  "dec_encodedMessage \<lparr>dec_encodedMessage = 3, dec_blockSize = 0x00, dec_overheadCount = 0x03,
       dec_output = [0x11, 0x11]\<rparr> < length [0x03, 0x11, 0x11, 0x00, 0x99, 0x99 :: u8] \<and>
   [0x03, 0x11, 0x11, 0x00, 0x99, 0x99 :: u8] ! 3 = ASCII_NULL \<and>
   decodeBody [0x03, 0x11, 0x11, 0x00, 0x99, 0x99]
       \<lparr>dec_encodedMessage = 3, dec_blockSize = 0x00, dec_overheadCount = 0x03,
          dec_output = [0x11, 0x11]\<rparr> =
     Break \<lparr>dec_encodedMessage = 4, dec_blockSize = 0x00, dec_overheadCount = 0x03,
             dec_output = [0x11, 0x11]\<rparr> \<and>
   decodeLoop [0x03, 0x11, 0x11, 0x00, 0x99, 0x99]
       \<lparr>dec_encodedMessage = 3, dec_blockSize = 0x00, dec_overheadCount = 0x03,
          dec_output = [0x11, 0x11]\<rparr> =
     \<lparr>dec_encodedMessage = 4, dec_blockSize = 0x00, dec_overheadCount = 0x03,
        dec_output = [0x11, 0x11]\<rparr> \<and>
   sentinel_end [0x03, 0x11, 0x11, 0x00, 0x99, 0x99] 0 = 4 \<and>
   dec_encodedMessage (decodeLoop [0x03, 0x11, 0x11, 0x00, 0x99, 0x99] decodeStart) = 4 \<and>
   recovered [0x03, 0x11, 0x11, 0x00, 0x99, 0x99] = [0x11, 0x11] \<and>
   decodeMessage [0x03, 0x11, 0x11, 0x00, 0x99, 0x99] [0x07] = (True, [0x11]) \<and>
   sentinel_end [0x05, 0x07] 0 = 2 \<and>
   dec_encodedMessage (decodeLoop [0x05, 0x07] decodeStart) = 2 \<and>
   recovered [0x05, 0x07] = [0x07] \<and>
   decodeMessage [0x05, 0x07] [0x09] = (False, [0x09]) \<and>
   \<not> dec_encodedMessage decodeStart < length ([] :: u8 list) \<and>
   decodeLoop [] decodeStart = decodeStart \<and>
   decodeMessage [] [0x09] = (False, [0x09])"
proof -
  have e1: "sentinel_end [0x03, 0x11, 0x11, 0x00, 0x99, 0x99] 0 = 4"
    by (simp add: sentinel_end.simps)
  have e2: "sentinel_end [0x05, 0x07] 0 = 2"
    by (simp add: sentinel_end.simps)
  have r1: "recovered [0x03, 0x11, 0x11, 0x00, 0x99, 0x99] = [0x11, 0x11]"
    by (simp add: recovered_unstuff)
  have r2: "recovered [0x05, 0x07] = [0x07]"
    by (simp add: recovered_unstuff)
  have c: "calculateCRC [0x11] (to_uint32 (length [0x11 :: u8])) = 0x11"
    "calculateCRC [] (to_uint32 (length ([] :: u8 list))) = 0"
    by (simp_all add: to_uint32_def calculateCRC_def calculateCRC_loop.simps)
  have d1: "decodeMessage [0x03, 0x11, 0x11, 0x00, 0x99, 0x99] [0x07] = (True, [0x11])"
    using r1 c by (simp add: decodeMessage_def recovered_def [symmetric] Let_def)
  have d2: "decodeMessage [0x05, 0x07] [0x09] = (False, [0x09])"
    using r2 c by (simp add: decodeMessage_def recovered_def [symmetric] Let_def)
  have d3: "decodeMessage [] [0x09] = (False, [0x09])"
    by (simp add: decodeMessage_def recovered_def [symmetric] recovered_unstuff)
  show ?thesis
    using decode_terminates [of "\<lparr>dec_encodedMessage = 3, dec_blockSize = 0x00,
          dec_overheadCount = 0x03, dec_output = [0x11, 0x11]\<rparr>"
        "[0x03, 0x11, 0x11, 0x00, 0x99, 0x99]" "[0x07]"]
      decode_terminates [of decodeStart "[0x05, 0x07]" "[0x09]"]
      decode_terminates [of decodeStart "[]" "[0x09]"]
    by (simp add: e1 e2 r1 r2 d1 d2 d3 ASCII_NULL_def decodeBody_def)
qed

text \<open>
  C10 (the writes stay inside the buffer). For every payload \<open>encodeMessage\<close> finishes
  without a store outside the vector (the result is not \<open>None\<close>), and the number of
  bytes written, which is the length of the final frame and, converted to
  \<^verbatim>\<open>uint32_t\<close>, the returned value, is at most the size \<open>expectedLen\<close> the vector was
  given before the loop: the last \<^verbatim>\<open>resize\<close> never grows the vector.
\<close>

theorem encode_within_buffer:
  "\<exists>frame actualLen. encodeMessage p = Some (frame, actualLen) \<and>
     length frame \<le> expectedLen_of (messageSize_of (length p)) \<and>
     actualLen = to_uint32 (length frame) \<and>
     actualLen \<le> expectedLen_of (messageSize_of (length p))"
proof -
  have "length (stuff [] (message p)) \<le> expectedLen_of (messageSize_of (length p))"
    using stuff_length_le [of "[]" "message p"]
    by (simp add: length_message expectedLen_of_def)
  moreover have "to_uint32 (length (stuff [] (message p))) \<le> length (stuff [] (message p))"
    by (simp add: to_uint32_def)
  ultimately show ?thesis
    by (simp add: encodeMessage_stuff)
qed

text \<open>
  X1 (malformed input). Decoding the empty input returns false, and so does decoding
  a single sentinel byte: in both cases nothing is recovered, and \<open>m_message\<close> stays
  as it was.
\<close>

theorem decode_nothing_recovered:
  "recovered [] = [] \<and> decodeMessage [] m_message = (False, m_message) \<and>
   recovered [0x00] = [] \<and> decodeMessage [0x00] m_message = (False, m_message)"
proof -
  have "recovered [] = []" "recovered [0x00] = []"
    by (simp_all add: recovered_unstuff)
  then show ?thesis
    by (simp add: decodeMessage_def recovered_def [symmetric])
qed

end
